theory Spec2Isabelle
  imports Main
begin

section \<open>Python values used by \<open>travel.py\<close>\<close>

text \<open>
  Strings are ASCII strings: every option text of \<open>travel.py\<close> is ASCII, and on ASCII
  text \<open>str.lower\<close>, \<open>str.title\<close> and \<open>len\<close> act character by character. Numbers
  that come out of the catalog (season factors, interest scores) are values of any
  linearly ordered ring \<open>'n\<close> (the integers, the rationals), with exact arithmetic; the
  answers of the user to the interest questions are integers.
\<close>

datatype error = ValueError | KeyError

definition is_upper_ascii :: "char \<Rightarrow> bool" where
  "is_upper_ascii c = (65 \<le> (of_char c :: nat) \<and> (of_char c :: nat) \<le> 90)"

definition is_lower_ascii :: "char \<Rightarrow> bool" where
  "is_lower_ascii c = (97 \<le> (of_char c :: nat) \<and> (of_char c :: nat) \<le> 122)"

definition to_lower_ascii :: "char \<Rightarrow> char" where
  "to_lower_ascii c = (if is_upper_ascii c then char_of ((of_char c :: nat) + 32) else c)"

definition to_upper_ascii :: "char \<Rightarrow> char" where
  "to_upper_ascii c = (if is_lower_ascii c then char_of ((of_char c :: nat) - 32) else c)"

text \<open>\<open>s.lower()\<close>\<close>

definition str_lower :: "string \<Rightarrow> string" where
  "str_lower s = map to_lower_ascii s"

text \<open>
  \<open>s.title()\<close>: a letter that follows a letter is put in lower case, any other letter
  in upper case; the flag says whether the previous character was a letter.
\<close>

fun title_from :: "bool \<Rightarrow> string \<Rightarrow> string" where
  "title_from previous_is_cased [] = []"
| "title_from previous_is_cased (c # cs) =
     (if is_upper_ascii c \<or> is_lower_ascii c
      then (if previous_is_cased then to_lower_ascii c else to_upper_ascii c)
             # title_from True cs
      else c # title_from False cs)"

definition str_title :: "string \<Rightarrow> string" where
  "str_title s = title_from False s"

text \<open>\<open>xs.index(x)\<close>: the first position of \<open>x\<close>, \<open>ValueError\<close> when there is none.\<close>

fun list_index :: "'a list \<Rightarrow> 'a \<Rightarrow> error + nat" where
  "list_index [] x = Inl ValueError"
| "list_index (y # ys) x =
     (if y = x then Inr 0
      else (case list_index ys x of Inl e \<Rightarrow> Inl e | Inr i \<Rightarrow> Inr (Suc i)))"

text \<open>
  \<open>max(f(x) for x in xs)\<close>: the generator is consumed from the left, an exception of
  \<open>f\<close> ends it, the running maximum is replaced by a strictly greater item only, and no
  item at all is a \<open>ValueError\<close>.
\<close>

fun max_rest :: "('a \<Rightarrow> error + 'n::linorder) \<Rightarrow> 'n \<Rightarrow> 'a list \<Rightarrow> error + 'n" where
  "max_rest f m [] = Inr m"
| "max_rest f m (x # xs) =
     (case f x of Inl e \<Rightarrow> Inl e
      | Inr v \<Rightarrow> max_rest f (if v > m then v else m) xs)"

fun max_gen :: "('a \<Rightarrow> error + 'n::linorder) \<Rightarrow> 'a list \<Rightarrow> error + 'n" where
  "max_gen f [] = Inl ValueError"
| "max_gen f (x # xs) = (case f x of Inl e \<Rightarrow> Inl e | Inr v \<Rightarrow> max_rest f v xs)"

text \<open>\<open>sum(f(x) for x in xs)\<close>: starts at 0 and adds the items from the left.\<close>

fun sum_from :: "('a \<Rightarrow> error + 'n::monoid_add) \<Rightarrow> 'n \<Rightarrow> 'a list \<Rightarrow> error + 'n" where
  "sum_from f acc [] = Inr acc"
| "sum_from f acc (x # xs) =
     (case f x of Inl e \<Rightarrow> Inl e | Inr v \<Rightarrow> sum_from f (acc + v) xs)"

definition sum_gen :: "('a \<Rightarrow> error + 'n::monoid_add) \<Rightarrow> 'a list \<Rightarrow> error + 'n" where
  "sum_gen f xs = sum_from f 0 xs"


section \<open>The question tables\<close>

definition CONTINENT_INPUT :: "string \<times> string list" where
  "CONTINENT_INPUT = (''Which continents would you like to travel to?'',
     [''Asia'', ''Africa'', ''North America'', ''South America'', ''Europe'', ''Oceania'',
      ''Antarctica''])"

definition COST_INPUT :: "string \<times> (string \<times> string) list" where
  "COST_INPUT = (''What is money to you?'',
     [(''$$$'', ''No object''),
      (''$$'', ''Spendable, so long as I get value from doing so''),
      (''$'', ''Extremely important; I want to spend as little as possible'')])"

definition CRIME_INPUT :: "string \<times> string list" where
  "CRIME_INPUT = (''How much crime is acceptable when you travel?'',
     [''Low'', ''Average'', ''High''])"

definition CHILDREN_INPUT :: "string \<times> string list" where
  "CHILDREN_INPUT = (''Will you be travelling with children?'', [''Yes'', ''No''])"

definition SEASON_INPUT :: "string \<times> string list" where
  "SEASON_INPUT = (''Which seasons do you plan to travel in?'',
     [''Spring'', ''Summer'', ''Autumn'', ''Winter''])"

definition CLIMATE_INPUT :: "string \<times> string list" where
  "CLIMATE_INPUT = (''What climate do you prefer?'',
     [''Cold'', ''Cool'', ''Moderate'', ''Warm'', ''Hot''])"

text \<open>Each entry of \<open>INTEREST_INPUT\<close> is unpacked as \<open>key, label\<close>.\<close>

definition INTEREST_INPUT :: "(string \<times> string) list" where
  "INTEREST_INPUT =
     [(''sports'', ''sports''),
      (''wildlife'', ''wildlife''),
      (''nature'', ''nature''),
      (''historical'', ''historical sites''),
      (''cuisine'', ''fine dining''),
      (''adventure'', ''adventure activities''),
      (''beach'', ''the beach'')]"


section \<open>Destinations and answers\<close>

text \<open>
  Modelled from the spec: the class of the catalog entries (module \<open>destinations\<close>) is
  not part of the sources at hand. A destination is the record of what its getters
  return: \<open>get_name\<close>, \<open>get_continent\<close>, \<open>get_crime\<close>, \<open>get_cost\<close>,
  \<open>is_kid_friendly\<close> and \<open>get_climate\<close> are fields, and the two keyed getters read a
  table from season name, respectively interest key, to a number.
\<close>

record 'n destination =
  get_name :: string
  get_continent :: string
  get_crime :: string
  get_cost :: string
  is_kid_friendly :: bool
  get_climate :: string
  season_factors :: "(string \<times> 'n) list"
  interest_scores :: "(string \<times> 'n) list"

text \<open>
  Modelled from the spec: a keyed getter asked for a key its table does not hold fails
  (the spec's missing-key error) instead of returning a default.
\<close>

definition get_season_factor :: "'n destination \<Rightarrow> string \<Rightarrow> error + 'n" where
  "get_season_factor d season =
     (case map_of (season_factors d) season of None \<Rightarrow> Inl KeyError | Some v \<Rightarrow> Inr v)"

definition get_interest_score :: "'n destination \<Rightarrow> string \<Rightarrow> error + 'n" where
  "get_interest_score d key =
     (case map_of (interest_scores d) key of None \<Rightarrow> Inl KeyError | Some v \<Rightarrow> Inr v)"

text \<open>
  The two dictionaries \<open>responses\<close> and \<open>interests\<close> that \<open>main\<close> fills in before the
  matching loop. \<open>interests\<close> keeps the insertion order of the dictionary.
\<close>

record answers =
  r_continent :: "string list"
  r_cost :: string
  r_crime :: string
  r_kids :: string
  r_season :: "string list"
  r_climate :: string
  interests :: "(string \<times> int) list"


section \<open>The matching loop of \<open>main\<close>\<close>

text \<open>
  The five \<open>continue\<close> tests at the head of the loop body, in the order of the source:
  \<open>Inr True\<close> when the destination reaches the scoring part, \<open>Inr False\<close> when the
  loop moves on to the next destination.
\<close>

definition passes_filters :: "('n, 'z) destination_scheme \<Rightarrow> answers \<Rightarrow> error + bool" where
  "passes_filters d r =
     (if str_title (get_continent d) \<notin> set (r_continent r) then Inr False
      else (case list_index (snd CRIME_INPUT) (str_title (get_crime d)) of
              Inl e \<Rightarrow> Inl e
            | Inr i \<Rightarrow>
               (case list_index (snd CRIME_INPUT) (r_crime r) of
                  Inl e \<Rightarrow> Inl e
                | Inr j \<Rightarrow>
                   if i > j then Inr False
                   else if length (get_cost d) > length (r_cost r) then Inr False
                   else if r_kids r = ''Yes'' \<and> \<not> is_kid_friendly d then Inr False
                   else if str_lower (r_climate r) \<noteq> get_climate d then Inr False
                   else Inr True)))"

text \<open>The best season factor over the seasons the user chose.\<close>

definition season_score :: "'n::linordered_idom destination \<Rightarrow> answers \<Rightarrow> error + 'n" where
  "season_score d r = max_gen (\<lambda>season. get_season_factor d (str_lower season)) (r_season r)"

text \<open>The sum of answer times interest score over the items of \<open>interests\<close>.\<close>

definition interest_term :: "'n::linordered_idom destination \<Rightarrow> string \<times> int \<Rightarrow> error + 'n" where
  "interest_term d item =
     (case item of (key, response) \<Rightarrow>
        (case get_interest_score d key of Inl e \<Rightarrow> Inl e | Inr v \<Rightarrow> Inr (of_int response * v)))"

definition interest_total :: "'n::linordered_idom destination \<Rightarrow> answers \<Rightarrow> error + 'n" where
  "interest_total d r = sum_gen (interest_term d) (interests r)"

text \<open>
  The \<open>else\<close> branch of the loop body: both season scores, then both interest sums,
  then the two products and the strict comparison.
\<close>

definition challenge ::
  "answers \<Rightarrow> 'n::linordered_idom destination \<Rightarrow> 'n destination \<Rightarrow> error + 'n destination" where
  "challenge r match destination =
     (case season_score match r of Inl e \<Rightarrow> Inl e | Inr prev_score \<Rightarrow>
      (case season_score destination r of Inl e \<Rightarrow> Inl e | Inr score \<Rightarrow>
       (case interest_total match r of Inl e \<Rightarrow> Inl e | Inr prev_interest_score \<Rightarrow>
        (case interest_total destination r of Inl e \<Rightarrow> Inl e | Inr interest_score \<Rightarrow>
           Inr (if score * interest_score > prev_score * prev_interest_score
                then destination else match)))))"

text \<open>One turn of the loop body, from the current \<open>match\<close> to the next one.\<close>

definition loop_body ::
  "answers \<Rightarrow> 'n::linordered_idom destination option \<Rightarrow> 'n destination
     \<Rightarrow> error + 'n destination option" where
  "loop_body r match destination =
     (case passes_filters destination r of
        Inl e \<Rightarrow> Inl e
      | Inr False \<Rightarrow> Inr match
      | Inr True \<Rightarrow>
         (case match of
            None \<Rightarrow> Inr (Some destination)
          | Some m \<Rightarrow>
             (case challenge r m destination of
                Inl e \<Rightarrow> Inl e
              | Inr m' \<Rightarrow> Inr (Some m'))))"

fun match_loop ::
  "answers \<Rightarrow> 'n::linordered_idom destination option \<Rightarrow> 'n destination list
     \<Rightarrow> error + 'n destination option" where
  "match_loop r match [] = Inr match"
| "match_loop r match (d # ds) =
     (case loop_body r match d of Inl e \<Rightarrow> Inl e | Inr match' \<Rightarrow> match_loop r match' ds)"

text \<open>The loop started with \<open>match = None\<close> on the whole catalog.\<close>

definition find_match ::
  "'n::linordered_idom destination list \<Rightarrow> answers \<Rightarrow> error + 'n destination option" where
  "find_match catalog r = match_loop r None catalog"

text \<open>
  The last line that \<open>main\<close> prints: \<open>print(match)\<close> writes the text \<open>None\<close> when
  \<open>match is None\<close>, and the name of the destination otherwise.
\<close>

definition printed_result :: "'n destination option \<Rightarrow> string" where
  "printed_result match = (case match of None \<Rightarrow> ''None'' | Some d \<Rightarrow> get_name d)"

definition main_output ::
  "'n::linordered_idom destination list \<Rightarrow> answers \<Rightarrow> error + string" where
  "main_output catalog r =
     (case find_match catalog r of Inl e \<Rightarrow> Inl e | Inr match \<Rightarrow> Inr (printed_result match))"

text \<open>
  The score that the \<open>else\<close> branch works out for one destination: its season
  maximum, then its interest sum, then the product of the two.
\<close>

definition composite_score :: "'n::linordered_idom destination \<Rightarrow> answers \<Rightarrow> error + 'n" where
  "composite_score d r =
     (case season_score d r of Inl e \<Rightarrow> Inl e | Inr score \<Rightarrow>
      (case interest_total d r of Inl e \<Rightarrow> Inl e | Inr interest_score \<Rightarrow>
         Inr (score * interest_score)))"


section \<open>Well-formed answers and catalog entries\<close>

text \<open>
  What the input routines of \<open>main\<close> hand to the loop: every multiple choice is a
  non-empty list of options of its question (repeated choices are accepted), every single
  choice is one of the options, and \<open>interests\<close> holds one integer from -5 to 5 for
  each key of \<open>INTEREST_INPUT\<close>, in that order.
\<close>

definition valid_answers :: "answers \<Rightarrow> bool" where
  "valid_answers r \<longleftrightarrow>
     r_continent r \<noteq> [] \<and> list_all (\<lambda>c. c \<in> set (snd CONTINENT_INPUT)) (r_continent r) \<and>
     r_cost r \<in> set (map fst (snd COST_INPUT)) \<and>
     r_crime r \<in> set (snd CRIME_INPUT) \<and>
     r_kids r \<in> set (snd CHILDREN_INPUT) \<and>
     r_season r \<noteq> [] \<and> list_all (\<lambda>s. s \<in> set (snd SEASON_INPUT)) (r_season r) \<and>
     r_climate r \<in> set (snd CLIMATE_INPUT) \<and>
     map fst (interests r) = map fst INTEREST_INPUT \<and>
     list_all (\<lambda>item. - 5 \<le> snd item \<and> snd item \<le> 5) (interests r)"

text \<open>
  Modelled from the spec: the invariants of a catalog entry, which the absent module
  \<open>destinations\<close> is in charge of. The crime level is one of the three levels up to
  capitalisation, the climate is one of the five climates in lower case, and the two
  tables hold a number for every season, in lower case, and for every interest key.
\<close>

definition valid_record :: "'n destination \<Rightarrow> bool" where
  "valid_record d \<longleftrightarrow>
     str_title (get_crime d) \<in> set (snd CRIME_INPUT) \<and>
     get_climate d \<in> set (map str_lower (snd CLIMATE_INPUT)) \<and>
     list_all (\<lambda>s. map_of (season_factors d) (str_lower s) \<noteq> None) (snd SEASON_INPUT) \<and>
     list_all (\<lambda>k. map_of (interest_scores d) k \<noteq> None) (map fst INTEREST_INPUT)"


section \<open>The scores and orders in the words of the specification\<close>

text \<open>
  The fixed order \<open>Low < Average < High\<close> of the crime levels.
\<close>

definition spec_crime_ordinal :: "string \<Rightarrow> nat" where
  "spec_crime_ordinal c = (if c = ''Low'' then 0 else if c = ''Average'' then 1 else 2)"

text \<open>
  The season score as the greatest season factor over the set of chosen seasons, the
  interest score as the sum over the fixed interest keys of answer times weight, and the
  composite score as their product. These three definitions follow the specification, not
  the code; \<open>the\<close> reads an entry that a complete table holds.
\<close>

definition spec_season_score :: "'n::linordered_idom destination \<Rightarrow> answers \<Rightarrow> 'n" where
  "spec_season_score d r =
     Max ((\<lambda>s. the (map_of (season_factors d) (str_lower s))) ` set (r_season r))"

definition spec_interest_score :: "'n::linordered_idom destination \<Rightarrow> answers \<Rightarrow> 'n" where
  "spec_interest_score d r =
     (\<Sum>k\<leftarrow>map fst INTEREST_INPUT.
        of_int (the (map_of (interests r) k)) * the (map_of (interest_scores d) k))"

definition spec_composite_score :: "'n::linordered_idom destination \<Rightarrow> answers \<Rightarrow> 'n" where
  "spec_composite_score d r = spec_season_score d r * spec_interest_score d r"


section \<open>A small catalog\<close>

text \<open>
  Four destinations and one set of answers, on which the theorems below are evaluated.
  Kyoto and Hanoi have the same composite score 115, Goa has the negative score -6, and
  Oslo is filtered out. The answers repeat a continent and a season, as the input
  \<open>1,1,5\<close> would.
\<close>

definition demo_answers :: answers where
  "demo_answers = \<lparr>r_continent = [''Asia'', ''Asia'', ''Europe''], r_cost = ''$$'',
     r_crime = ''Average'', r_kids = ''Yes'', r_season = [''Spring'', ''Winter'', ''Spring''],
     r_climate = ''Warm'',
     interests = [(''sports'', 1), (''wildlife'', - 2), (''nature'', 3), (''historical'', 0),
       (''cuisine'', 5), (''adventure'', - 5), (''beach'', 2)]\<rparr>"

definition kyoto :: "int destination" where
  "kyoto = \<lparr>get_name = ''Kyoto'', get_continent = ''asia'', get_crime = ''low'',
     get_cost = ''$$'', is_kid_friendly = True, get_climate = ''warm'',
     season_factors = [(''spring'', 5), (''summer'', 2), (''autumn'', 4), (''winter'', 1)],
     interest_scores = [(''sports'', 1), (''wildlife'', 1), (''nature'', 3), (''historical'', 5),
       (''cuisine'', 4), (''adventure'', 1), (''beach'', 0)]\<rparr>"

definition hanoi :: "int destination" where
  "hanoi = \<lparr>get_name = ''Hanoi'', get_continent = ''asia'', get_crime = ''average'',
     get_cost = ''$'', is_kid_friendly = True, get_climate = ''warm'',
     season_factors = [(''spring'', 23), (''summer'', 1), (''autumn'', 2), (''winter'', 3)],
     interest_scores = [(''sports'', 0), (''wildlife'', 0), (''nature'', 0), (''historical'', 0),
       (''cuisine'', 1), (''adventure'', 0), (''beach'', 0)]\<rparr>"

definition goa :: "int destination" where
  "goa = \<lparr>get_name = ''Goa'', get_continent = ''asia'', get_crime = ''average'',
     get_cost = ''$'', is_kid_friendly = True, get_climate = ''warm'',
     season_factors = [(''spring'', 1), (''summer'', 1), (''autumn'', 1), (''winter'', 2)],
     interest_scores = [(''sports'', 0), (''wildlife'', 0), (''nature'', 0), (''historical'', 0),
       (''cuisine'', 0), (''adventure'', 1), (''beach'', 1)]\<rparr>"

definition oslo :: "int destination" where
  "oslo = \<lparr>get_name = ''Oslo'', get_continent = ''europe'', get_crime = ''low'',
     get_cost = ''$$$'', is_kid_friendly = True, get_climate = ''cold'',
     season_factors = [(''spring'', 2), (''summer'', 4), (''autumn'', 2), (''winter'', 5)],
     interest_scores = [(''sports'', 3), (''wildlife'', 2), (''nature'', 5), (''historical'', 3),
       (''cuisine'', 2), (''adventure'', 4), (''beach'', 0)]\<rparr>"

definition demo_catalog :: "int destination list" where
  "demo_catalog = [oslo, goa, kyoto, hanoi]"


section \<open>Strings and lists\<close>

lemma list_index_Inr_iff: "(\<exists>i. list_index xs x = Inr i) \<longleftrightarrow> x \<in> set xs"
  by (induction xs) (auto split: sum.splits)

lemma list_index_error: "list_index xs x = Inl e \<Longrightarrow> e = ValueError"
  by (induction xs arbitrary: e) (auto split: sum.splits if_splits)

lemma crime_index:
  "c \<in> set (snd CRIME_INPUT) \<Longrightarrow> list_index (snd CRIME_INPUT) c = Inr (spec_crime_ordinal c)"
  by (auto simp: CRIME_INPUT_def spec_crime_ordinal_def)

lemma to_lower_ascii_idem: "to_lower_ascii (to_lower_ascii c) = to_lower_ascii c"
  by (auto simp: to_lower_ascii_def is_upper_ascii_def)

lemma str_lower_idem: "str_lower (str_lower s) = str_lower s"
  by (simp add: str_lower_def to_lower_ascii_idem)

lemma valid_record_climate: "valid_record d \<Longrightarrow> str_lower (get_climate d) = get_climate d"
  by (auto simp: valid_record_def str_lower_idem)


section \<open>One turn of the loop\<close>

lemma challenge_composite:
  assumes "composite_score m r = Inr p" and "composite_score d r = Inr s"
  shows "challenge r m d = Inr (if s > p then d else m)"
  using assms by (auto simp: challenge_def composite_score_def split: sum.splits)

lemma loop_body_skip: "passes_filters d r = Inr False \<Longrightarrow> loop_body r m d = Inr m"
  by (simp add: loop_body_def)

lemma loop_body_first: "passes_filters d r = Inr True \<Longrightarrow> loop_body r None d = Inr (Some d)"
  by (simp add: loop_body_def)

lemma loop_body_challenge:
  assumes "passes_filters d r = Inr True"
    and "composite_score m r = Inr p" and "composite_score d r = Inr s"
  shows "loop_body r (Some m) d = Inr (Some (if s > p then d else m))"
  using assms by (simp add: loop_body_def challenge_composite)

lemma match_loop_from_Some:
  fixes sc :: "'n::linordered_idom destination \<Rightarrow> 'n"
  assumes "\<forall>d\<in>set ds. passes_filters d r = Inr (el d)"
    and "\<forall>d\<in>set ds. composite_score d r = Inr (sc d)"
    and "composite_score p r = Inr (sc p)"
  shows "(match_loop r (Some p) ds = Inr (Some p) \<and> (\<forall>e\<in>set ds. el e \<longrightarrow> sc e \<le> sc p))
       \<or> (\<exists>ps d qs. ds = ps @ d # qs \<and> match_loop r (Some p) ds = Inr (Some d) \<and> el d
            \<and> sc p < sc d
            \<and> (\<forall>e\<in>set ps. el e \<longrightarrow> sc e < sc d)
            \<and> (\<forall>e\<in>set qs. el e \<longrightarrow> sc e \<le> sc d))"
  using assms
proof (induction ds arbitrary: p)
  case Nil
  then show ?case by simp
next
  case (Cons x xs)
  have fx: "passes_filters x r = Inr (el x)" and sx: "composite_score x r = Inr (sc x)"
    using Cons.prems by simp_all
  have rest: "\<forall>d\<in>set xs. passes_filters d r = Inr (el d)"
    "\<forall>d\<in>set xs. composite_score d r = Inr (sc d)"
    using Cons.prems by simp_all
  show ?case
  proof (cases "el x \<and> sc p < sc x")
    case True
    then have step: "loop_body r (Some p) x = Inr (Some x)"
      using fx sx Cons.prems(3) by (simp add: loop_body_challenge)
    then have run: "match_loop r (Some p) (x # xs) = match_loop r (Some x) xs"
      by simp
    from Cons.IH [OF rest sx] show ?thesis
    proof (elim disjE conjE exE)
      assume "match_loop r (Some x) xs = Inr (Some x)" "\<forall>e\<in>set xs. el e \<longrightarrow> sc e \<le> sc x"
      then have "x # xs = [] @ x # xs \<and> match_loop r (Some p) (x # xs) = Inr (Some x) \<and> el x
            \<and> sc p < sc x \<and> (\<forall>e\<in>set []. el e \<longrightarrow> sc e < sc x)
            \<and> (\<forall>e\<in>set xs. el e \<longrightarrow> sc e \<le> sc x)"
        using run True by simp
      then show ?thesis by blast
    next
      fix ps d qs
      assume "xs = ps @ d # qs" "match_loop r (Some x) xs = Inr (Some d)" "el d"
        "sc x < sc d" "\<forall>e\<in>set ps. el e \<longrightarrow> sc e < sc d" "\<forall>e\<in>set qs. el e \<longrightarrow> sc e \<le> sc d"
      then have "x # xs = (x # ps) @ d # qs \<and> match_loop r (Some p) (x # xs) = Inr (Some d)
            \<and> el d \<and> sc p < sc d \<and> (\<forall>e\<in>set (x # ps). el e \<longrightarrow> sc e < sc d)
            \<and> (\<forall>e\<in>set qs. el e \<longrightarrow> sc e \<le> sc d)"
        using run True by auto
      then show ?thesis by blast
    qed
  next
    case False
    then have step: "loop_body r (Some p) x = Inr (Some p)"
      using fx sx Cons.prems(3)
      by (cases "el x") (auto simp: loop_body_challenge loop_body_skip)
    then have run: "match_loop r (Some p) (x # xs) = match_loop r (Some p) xs"
      by simp
    from False have low: "el x \<longrightarrow> sc x \<le> sc p" by auto
    from Cons.IH [OF rest Cons.prems(3)] show ?thesis
    proof (elim disjE conjE exE)
      assume "match_loop r (Some p) xs = Inr (Some p)" "\<forall>e\<in>set xs. el e \<longrightarrow> sc e \<le> sc p"
      then show ?thesis using run low by simp
    next
      fix ps d qs
      assume "xs = ps @ d # qs" "match_loop r (Some p) xs = Inr (Some d)" "el d"
        "sc p < sc d" "\<forall>e\<in>set ps. el e \<longrightarrow> sc e < sc d" "\<forall>e\<in>set qs. el e \<longrightarrow> sc e \<le> sc d"
      then have "x # xs = (x # ps) @ d # qs \<and> match_loop r (Some p) (x # xs) = Inr (Some d)
            \<and> el d \<and> sc p < sc d \<and> (\<forall>e\<in>set (x # ps). el e \<longrightarrow> sc e < sc d)
            \<and> (\<forall>e\<in>set qs. el e \<longrightarrow> sc e \<le> sc d)"
        using run low by auto
      then show ?thesis by blast
    qed
  qed
qed

lemma match_loop_from_None:
  fixes sc :: "'n::linordered_idom destination \<Rightarrow> 'n"
  assumes "\<forall>d\<in>set ds. passes_filters d r = Inr (el d)"
    and "\<forall>d\<in>set ds. composite_score d r = Inr (sc d)"
  shows "(match_loop r None ds = Inr None \<and> (\<forall>e\<in>set ds. \<not> el e))
       \<or> (\<exists>ps d qs. ds = ps @ d # qs \<and> match_loop r None ds = Inr (Some d) \<and> el d
            \<and> (\<forall>e\<in>set ps. el e \<longrightarrow> sc e < sc d)
            \<and> (\<forall>e\<in>set qs. el e \<longrightarrow> sc e \<le> sc d))"
  using assms
proof (induction ds)
  case Nil
  then show ?case by simp
next
  case (Cons x xs)
  have fx: "passes_filters x r = Inr (el x)" and sx: "composite_score x r = Inr (sc x)"
    using Cons.prems by simp_all
  have rest: "\<forall>d\<in>set xs. passes_filters d r = Inr (el d)"
    "\<forall>d\<in>set xs. composite_score d r = Inr (sc d)"
    using Cons.prems by simp_all
  show ?case
  proof (cases "el x")
    case True
    then have run: "match_loop r None (x # xs) = match_loop r (Some x) xs"
      using fx by (simp add: loop_body_first)
    from match_loop_from_Some [OF rest sx] show ?thesis
    proof (elim disjE conjE exE)
      assume "match_loop r (Some x) xs = Inr (Some x)" "\<forall>e\<in>set xs. el e \<longrightarrow> sc e \<le> sc x"
      then have "x # xs = [] @ x # xs \<and> match_loop r None (x # xs) = Inr (Some x) \<and> el x
            \<and> (\<forall>e\<in>set []. el e \<longrightarrow> sc e < sc x)
            \<and> (\<forall>e\<in>set xs. el e \<longrightarrow> sc e \<le> sc x)"
        using run True by simp
      then show ?thesis by blast
    next
      fix ps d qs
      assume "xs = ps @ d # qs" "match_loop r (Some x) xs = Inr (Some d)" "el d"
        "sc x < sc d" "\<forall>e\<in>set ps. el e \<longrightarrow> sc e < sc d" "\<forall>e\<in>set qs. el e \<longrightarrow> sc e \<le> sc d"
      then have "x # xs = (x # ps) @ d # qs \<and> match_loop r None (x # xs) = Inr (Some d)
            \<and> el d \<and> (\<forall>e\<in>set (x # ps). el e \<longrightarrow> sc e < sc d)
            \<and> (\<forall>e\<in>set qs. el e \<longrightarrow> sc e \<le> sc d)"
        using run by auto
      then show ?thesis by blast
    qed
  next
    case False
    then have run: "match_loop r None (x # xs) = match_loop r None xs"
      using fx by (simp add: loop_body_skip)
    from Cons.IH [OF rest] show ?thesis
    proof (elim disjE conjE exE)
      assume "match_loop r None xs = Inr None" "\<forall>e\<in>set xs. \<not> el e"
      then show ?thesis using run False by simp
    next
      fix ps d qs
      assume "xs = ps @ d # qs" "match_loop r None xs = Inr (Some d)" "el d"
        "\<forall>e\<in>set ps. el e \<longrightarrow> sc e < sc d" "\<forall>e\<in>set qs. el e \<longrightarrow> sc e \<le> sc d"
      then have "x # xs = (x # ps) @ d # qs \<and> match_loop r None (x # xs) = Inr (Some d)
            \<and> el d \<and> (\<forall>e\<in>set (x # ps). el e \<longrightarrow> sc e < sc d)
            \<and> (\<forall>e\<in>set qs. el e \<longrightarrow> sc e \<le> sc d)"
        using run False by auto
      then show ?thesis by blast
    qed
  qed
qed


section \<open>Maximum and sum\<close>

lemma max_rest_char:
  fixes g :: "'a \<Rightarrow> 'n::linorder option"
  shows "max_rest (\<lambda>x. case g x of None \<Rightarrow> Inl KeyError | Some v \<Rightarrow> Inr v) m xs =
     (if \<exists>x\<in>set xs. g x = None then Inl KeyError
      else Inr (Max (insert m ((\<lambda>x. the (g x)) ` set xs))))"
proof (induction xs arbitrary: m)
  case Nil
  then show ?case by simp
next
  case (Cons x xs)
  show ?case
  proof (cases "g x")
    case None
    then show ?thesis by simp
  next
    case (Some v)
    have fin: "finite ((\<lambda>x. the (g x)) ` set xs)" by simp
    have "Max (insert (if m < v then v else m) ((\<lambda>x. the (g x)) ` set xs))
        = Max (insert m (insert v ((\<lambda>x. the (g x)) ` set xs)))"
      using fin by (cases "(\<lambda>x. the (g x)) ` set xs = {}") (auto simp: max_def)
    then show ?thesis using Some Cons.IH by (simp add: insert_commute)
  qed
qed

lemma max_gen_char:
  fixes g :: "'a \<Rightarrow> 'n::linorder option"
  shows "max_gen (\<lambda>x. case g x of None \<Rightarrow> Inl KeyError | Some v \<Rightarrow> Inr v) xs =
     (if xs = [] then Inl ValueError
      else if \<exists>x\<in>set xs. g x = None then Inl KeyError
      else Inr (Max ((\<lambda>x. the (g x)) ` set xs)))"
proof (cases xs)
  case Nil
  then show ?thesis by simp
next
  case (Cons x ys)
  then show ?thesis by (cases "g x") (simp_all add: max_rest_char)
qed

lemma season_score_char:
  "season_score d r =
     (if r_season r = [] then Inl ValueError
      else if \<exists>s\<in>set (r_season r). map_of (season_factors d) (str_lower s) = None
           then Inl KeyError
      else Inr (spec_season_score d r))"
  unfolding season_score_def get_season_factor_def spec_season_score_def
  by (rule max_gen_char)

lemma sum_from_char:
  fixes g :: "'a \<Rightarrow> 'n::linordered_idom option"
  shows "sum_from (\<lambda>x. case g x of None \<Rightarrow> Inl KeyError | Some v \<Rightarrow> Inr (h x v)) acc xs =
     (if \<exists>x\<in>set xs. g x = None then Inl KeyError
      else Inr (acc + (\<Sum>x\<leftarrow>xs. h x (the (g x)))))"
proof (induction xs arbitrary: acc)
  case Nil
  then show ?case by simp
next
  case (Cons x xs)
  then show ?case by (cases "g x") (simp_all add: add.assoc)
qed

lemma interest_term_eq:
  "interest_term d =
     (\<lambda>item. case map_of (interest_scores d) (fst item) of
                None \<Rightarrow> Inl KeyError | Some v \<Rightarrow> Inr (of_int (snd item) * v))"
  by (rule ext) (simp add: interest_term_def get_interest_score_def split: prod.splits option.splits)

lemma interest_total_char:
  "interest_total d r =
     (if \<exists>item\<in>set (interests r). map_of (interest_scores d) (fst item) = None
      then Inl KeyError
      else Inr (\<Sum>item\<leftarrow>interests r.
                  of_int (snd item) * the (map_of (interest_scores d) (fst item))))"
  unfolding interest_total_def sum_gen_def interest_term_eq
  by (simp add: sum_from_char)

lemma sum_over_keys:
  "distinct (map fst xs) \<Longrightarrow>
     (\<Sum>k\<leftarrow>map fst xs. F k (the (map_of xs k))) = (\<Sum>item\<leftarrow>xs. F (fst item) (snd item))"
proof (induction xs)
  case Nil
  then show ?case by simp
next
  case (Cons x xs)
  have same: "F k (the (map_of (x # xs) k)) = F k (the (map_of xs k))"
    if "k \<in> set (map fst xs)" for k
  proof -
    from Cons.prems have "fst x \<notin> set (map fst xs)" by simp
    with that have "k \<noteq> fst x" by blast
    then show ?thesis by (cases x) simp
  qed
  have tl: "map (\<lambda>k. F k (the (map_of (x # xs) k))) (map fst xs)
      = map (\<lambda>k. F k (the (map_of xs k))) (map fst xs)"
    by (rule map_cong [OF refl same])
  have hd: "F (fst x) (the (map_of (x # xs) (fst x))) = F (fst x) (snd x)"
    by (cases x) simp
  have ih: "(\<Sum>k\<leftarrow>map fst xs. F k (the (map_of xs k))) = (\<Sum>item\<leftarrow>xs. F (fst item) (snd item))"
    using Cons.prems by (intro Cons.IH) simp
  show ?case
    unfolding list.map sum_list.Cons tl hd ih ..
qed

lemma interest_keys_distinct: "distinct (map fst INTEREST_INPUT)"
  by (simp add: INTEREST_INPUT_def)

lemma spec_interest_score_items:
  assumes "map fst (interests r) = map fst INTEREST_INPUT"
  shows "spec_interest_score d r =
     (\<Sum>item\<leftarrow>interests r. of_int (snd item) * the (map_of (interest_scores d) (fst item)))"
proof -
  have "distinct (map fst (interests r))"
    using assms interest_keys_distinct by simp
  from sum_over_keys [OF this, of "\<lambda>k v. of_int v * the (map_of (interest_scores d) k)"]
  show ?thesis unfolding spec_interest_score_def assms [symmetric] by (simp add: comp_def)
qed

lemma valid_season_score:
  assumes "valid_answers r" and "valid_record d"
  shows "season_score d r = Inr (spec_season_score d r)"
proof -
  have "\<forall>s\<in>set (r_season r). map_of (season_factors d) (str_lower s) \<noteq> None"
    using assms by (auto simp: valid_answers_def valid_record_def list_all_iff)
  moreover have "r_season r \<noteq> []" using assms(1) by (simp add: valid_answers_def)
  ultimately show ?thesis by (simp add: season_score_char)
qed

lemma valid_interest_total:
  assumes "valid_answers r" and "valid_record d"
  shows "interest_total d r = Inr (spec_interest_score d r)"
proof -
  have keys: "map fst (interests r) = map fst INTEREST_INPUT"
    using assms(1) by (simp add: valid_answers_def)
  have img: "fst ` set (interests r) = set (map fst INTEREST_INPUT)"
    using keys by (metis set_map)
  have "\<forall>k\<in>set (map fst INTEREST_INPUT). map_of (interest_scores d) k \<noteq> None"
    using assms(2) unfolding valid_record_def list_all_iff by blast
  then have "\<forall>item\<in>set (interests r). map_of (interest_scores d) (fst item) \<noteq> None"
    using img by blast
  then show ?thesis
    by (simp add: interest_total_char spec_interest_score_items [OF keys])
qed

lemma valid_composite_score:
  assumes "valid_answers r" and "valid_record d"
  shows "composite_score d r = Inr (spec_composite_score d r)"
  by (simp add: composite_score_def spec_composite_score_def
      valid_season_score [OF assms] valid_interest_total [OF assms])


section \<open>The loop on a well-formed catalog\<close>

lemma filter_total:
  assumes "valid_answers r" and "valid_record d"
  shows "passes_filters d r = Inr (passes_filters d r = Inr True)"
proof -
  have a: "list_index (snd CRIME_INPUT) (str_title (get_crime d))
             = Inr (spec_crime_ordinal (str_title (get_crime d)))"
    using assms(2) by (simp add: valid_record_def crime_index)
  have b: "list_index (snd CRIME_INPUT) (r_crime r) = Inr (spec_crime_ordinal (r_crime r))"
    using assms(1) by (simp add: valid_answers_def crime_index)
  have "\<exists>b. passes_filters d r = Inr b"
    unfolding passes_filters_def a b by auto
  then show ?thesis by auto
qed

lemma find_match_shape:
  assumes "valid_answers r" and "\<forall>d\<in>set catalog. valid_record d"
  shows "(find_match catalog r = Inr None
            \<and> (\<forall>e\<in>set catalog. passes_filters e r = Inr False))
       \<or> (\<exists>ps d qs. catalog = ps @ d # qs \<and> find_match catalog r = Inr (Some d)
            \<and> passes_filters d r = Inr True
            \<and> (\<forall>e\<in>set ps. passes_filters e r = Inr True
                  \<longrightarrow> spec_composite_score e r < spec_composite_score d r)
            \<and> (\<forall>e\<in>set qs. passes_filters e r = Inr True
                  \<longrightarrow> spec_composite_score e r \<le> spec_composite_score d r))"
proof -
  have el: "\<forall>d\<in>set catalog. passes_filters d r = Inr (passes_filters d r = Inr True)"
    using assms filter_total by blast
  have sc: "\<forall>d\<in>set catalog. composite_score d r = Inr (spec_composite_score d r)"
    using assms valid_composite_score by blast
  from match_loop_from_None [OF el sc] show ?thesis
  proof (elim disjE conjE exE)
    assume none: "match_loop r None catalog = Inr None"
      and "\<forall>e\<in>set catalog. passes_filters e r \<noteq> Inr True"
    with el have "\<forall>e\<in>set catalog. passes_filters e r = Inr False" by auto
    with none show ?thesis unfolding find_match_def by blast
  next
    fix ps d qs
    assume "catalog = ps @ d # qs" "match_loop r None catalog = Inr (Some d)"
      "passes_filters d r = Inr True"
      "\<forall>e\<in>set ps. passes_filters e r = Inr True
          \<longrightarrow> spec_composite_score e r < spec_composite_score d r"
      "\<forall>e\<in>set qs. passes_filters e r = Inr True
          \<longrightarrow> spec_composite_score e r \<le> spec_composite_score d r"
    then show ?thesis unfolding find_match_def by blast
  qed
qed


section \<open>The accumulator of the loop\<close>

lemma passes_filters_error: "passes_filters d r = Inl e \<Longrightarrow> e = ValueError"
  by (auto simp: passes_filters_def split: if_splits sum.splits dest: list_index_error)

lemma challenge_result: "challenge r m d = Inr m' \<Longrightarrow> m' = m \<or> m' = d"
  by (auto simp: challenge_def split: sum.splits if_splits)

lemma loop_body_result:
  "loop_body r m d = Inr m' \<Longrightarrow> m' = m \<or> (m' = Some d \<and> passes_filters d r = Inr True)"
  by (auto simp: loop_body_def split: sum.splits bool.splits option.splits if_splits
      dest: challenge_result)

lemma match_loop_result:
  "match_loop r m ds = Inr (Some d) \<Longrightarrow>
     m = Some d \<or> (d \<in> set ds \<and> passes_filters d r = Inr True)"
proof (induction ds arbitrary: m)
  case Nil
  then show ?case by simp
next
  case (Cons x xs)
  from Cons.prems obtain m' where step: "loop_body r m x = Inr m'"
    and run: "match_loop r m' xs = Inr (Some d)"
    by (auto split: sum.splits)
  from Cons.IH [OF run] loop_body_result [OF step] show ?case by auto
qed

lemma match_loop_append:
  "match_loop r m (ps @ qs) =
     (case match_loop r m ps of Inl e \<Rightarrow> Inl e | Inr m' \<Rightarrow> match_loop r m' qs)"
  by (induction ps arbitrary: m) (auto split: sum.splits)


section \<open>No match and empty choices\<close>

lemma match_loop_all_skipped:
  "\<forall>d\<in>set ds. passes_filters d r = Inr False \<Longrightarrow> match_loop r m ds = Inr m"
  by (induction ds) (simp_all add: loop_body_skip)

lemma no_continent_skips: "r_continent r = [] \<Longrightarrow> passes_filters d r = Inr False"
  by (simp add: passes_filters_def)

lemma no_season_challenge: "r_season r = [] \<Longrightarrow> challenge r m d = Inl ValueError"
  by (simp add: challenge_def season_score_def)

lemma no_season_from_Some:
  assumes "r_season r = []" and "\<exists>d\<in>set ds. passes_filters d r = Inr True"
  shows "match_loop r (Some p) ds = Inl ValueError"
  using assms(2)
proof (induction ds)
  case Nil
  then show ?case by simp
next
  case (Cons x xs)
  show ?case
  proof (cases "passes_filters x r")
    case (Inl e)
    then show ?thesis using passes_filters_error [OF Inl] by (simp add: loop_body_def)
  next
    case (Inr b)
    show ?thesis
    proof (cases b)
      case True
      then show ?thesis using Inr assms(1) by (simp add: loop_body_def no_season_challenge)
    next
      case False
      then have "\<exists>d\<in>set xs. passes_filters d r = Inr True" using Cons.prems Inr by auto
      then show ?thesis using Cons.IH False Inr by (simp add: loop_body_skip)
    qed
  qed
qed

lemma no_season_from_None:
  assumes "r_season r = []"
    and "2 \<le> length (filter (\<lambda>d. passes_filters d r = Inr True) ds)"
  shows "match_loop r None ds = Inl ValueError"
  using assms(2)
proof (induction ds)
  case Nil
  then show ?case by simp
next
  case (Cons x xs)
  show ?case
  proof (cases "passes_filters x r")
    case (Inl e)
    then show ?thesis using passes_filters_error [OF Inl] by (simp add: loop_body_def)
  next
    case (Inr b)
    show ?thesis
    proof (cases b)
      case True
      then have "filter (\<lambda>d. passes_filters d r = Inr True) xs \<noteq> []"
        using Cons.prems Inr by auto
      then have "\<exists>d\<in>set xs. passes_filters d r = Inr True"
        by (simp add: filter_empty_conv)
      from no_season_from_Some [OF assms(1) this] show ?thesis
        using True Inr by (simp add: loop_body_first)
    next
      case False
      then show ?thesis using Cons Inr by (simp add: loop_body_skip)
    qed
  qed
qed


section \<open>Repeated choices\<close>

lemma match_loop_cong:
  fixes r r' :: answers and m :: "'n::linordered_idom destination option"
  assumes "\<And>d :: 'n destination. passes_filters d r' = passes_filters d r"
    and "\<And>d :: 'n destination. season_score d r' = season_score d r"
    and "\<And>d :: 'n destination. interest_total d r' = interest_total d r"
  shows "match_loop r' m ds = match_loop r m ds"
proof -
  have "challenge r' p d = challenge r p d" for p d :: "'n destination"
    by (simp add: challenge_def assms cong: sum.case_cong)
  then have "loop_body r' m d = loop_body r m d" for m and d :: "'n destination"
    by (simp add: loop_body_def assms cong: sum.case_cong bool.case_cong option.case_cong)
  then show ?thesis by (induction ds arbitrary: m) (simp_all cong: sum.case_cong)
qed


section \<open>The sample catalog\<close>

lemma demo_answers_valid: "valid_answers demo_answers"
  by code_simp

lemma demo_catalog_valid: "\<forall>d\<in>set demo_catalog. valid_record d"
  by code_simp

lemma demo_result: "find_match demo_catalog demo_answers = Inr (Some kyoto)"
  by code_simp


section \<open>The claims\<close>

text \<open>
  Claim C1. For well-formed answers and a catalog of well-formed entries the loop does
  not fail. Its result is either a destination of the catalog that passes the tests and
  whose composite score is at least the composite score of every destination of the
  catalog that passes the tests, or \<open>None\<close> when every destination is skipped; and it
  is \<open>None\<close> whenever no destination passes.
\<close>

theorem find_match_optimal:
  assumes "valid_answers r" and "\<forall>d\<in>set catalog. valid_record d"
  shows "((\<exists>d. find_match catalog r = Inr (Some d) \<and> d \<in> set catalog
             \<and> passes_filters d r = Inr True
             \<and> (\<forall>e\<in>set catalog. passes_filters e r = Inr True \<longrightarrow>
                  (\<exists>x y. composite_score d r = Inr x \<and> composite_score e r = Inr y \<and> y \<le> x)))
          \<or> (find_match catalog r = Inr None
              \<and> (\<forall>e\<in>set catalog. passes_filters e r = Inr False)))
       \<and> ((\<forall>e\<in>set catalog. passes_filters e r \<noteq> Inr True) \<longrightarrow> find_match catalog r = Inr None)"
proof -
  have sc: "\<forall>d\<in>set catalog. composite_score d r = Inr (spec_composite_score d r)"
    using assms valid_composite_score by blast
  from find_match_shape [OF assms] show ?thesis
  proof (elim disjE conjE exE)
    assume "find_match catalog r = Inr None"
      "\<forall>e\<in>set catalog. passes_filters e r = Inr False"
    then show ?thesis by simp
  next
    fix ps d qs
    assume split: "catalog = ps @ d # qs" and res: "find_match catalog r = Inr (Some d)"
      and el: "passes_filters d r = Inr True"
      and before: "\<forall>e\<in>set ps. passes_filters e r = Inr True
          \<longrightarrow> spec_composite_score e r < spec_composite_score d r"
      and after: "\<forall>e\<in>set qs. passes_filters e r = Inr True
          \<longrightarrow> spec_composite_score e r \<le> spec_composite_score d r"
    have mem: "d \<in> set catalog" using split by simp
    have best: "spec_composite_score e r \<le> spec_composite_score d r"
      if "e \<in> set catalog" "passes_filters e r = Inr True" for e
    proof -
      from that(1) split have "e \<in> set ps \<or> e = d \<or> e \<in> set qs" by auto
      then show ?thesis using before after that(2) by (auto simp: less_imp_le)
    qed
    have "\<forall>e\<in>set catalog. passes_filters e r = Inr True \<longrightarrow>
            (\<exists>x y. composite_score d r = Inr x \<and> composite_score e r = Inr y \<and> y \<le> x)"
      using sc mem best by auto
    then show ?thesis using res mem el by auto
  qed
qed

text \<open>
  On the sample catalog the result is Kyoto.
\<close>

theorem find_match_optimal_witness:
  "valid_answers demo_answers \<and> list_all valid_record demo_catalog
   \<and> find_match demo_catalog demo_answers = Inr (Some kyoto)
   \<and> kyoto \<in> set demo_catalog \<and> passes_filters kyoto demo_answers = Inr True
   \<and> passes_filters hanoi demo_answers = Inr True
   \<and> (\<exists>x y. composite_score kyoto demo_answers = Inr x
              \<and> composite_score hanoi demo_answers = Inr y \<and> y \<le> x)
   \<and> passes_filters goa demo_answers = Inr True
   \<and> (\<exists>x y. composite_score kyoto demo_answers = Inr x
              \<and> composite_score goa demo_answers = Inr y \<and> y \<le> x)"
proof -
  have v: "list_all valid_record demo_catalog"
    using demo_catalog_valid by (simp add: list_all_iff)
  have h: "hanoi \<in> set demo_catalog" and g: "goa \<in> set demo_catalog"
    by (simp_all add: demo_catalog_def)
  have ph: "passes_filters hanoi demo_answers = Inr True" by code_simp
  have pg: "passes_filters goa demo_answers = Inr True" by code_simp
  from find_match_optimal [OF demo_answers_valid demo_catalog_valid] demo_result
  have k: "kyoto \<in> set demo_catalog" "passes_filters kyoto demo_answers = Inr True"
    and best: "\<forall>e\<in>set demo_catalog. passes_filters e demo_answers = Inr True \<longrightarrow>
         (\<exists>x y. composite_score kyoto demo_answers = Inr x
                \<and> composite_score e demo_answers = Inr y \<and> y \<le> x)"
    by auto
  from best h ph have "\<exists>x y. composite_score kyoto demo_answers = Inr x
              \<and> composite_score hanoi demo_answers = Inr y \<and> y \<le> x"
    by blast
  moreover from best g pg have "\<exists>x y. composite_score kyoto demo_answers = Inr x
              \<and> composite_score goa demo_answers = Inr y \<and> y \<le> x"
    by blast
  ultimately show ?thesis
    using demo_answers_valid v demo_result k ph pg by simp
qed

text \<open>
  Claim C2. For a catalog entry and well-formed answers, the destination passes the five
  tests of the loop exactly when all of the following hold: its continent, capitalised by
  \<open>title\<close>, is among the chosen continents; the rank of its crime level is at most the
  rank of the accepted crime level in the order \<open>Low < Average < High\<close>; its cost has
  at most as many cost symbols as the accepted cost; it is kid friendly whenever the answer
  to the children question is \<open>Yes\<close>; and its climate equals the preferred climate up
  to the case of the letters. The code puts only the answer in lower case, so the last
  condition relies on the catalog storing climates in lower case.
\<close>

theorem filter_iff:
  assumes "valid_answers r" and "valid_record d"
  shows "passes_filters d r = Inr
     (str_title (get_continent d) \<in> set (r_continent r)
      \<and> spec_crime_ordinal (str_title (get_crime d)) \<le> spec_crime_ordinal (r_crime r)
      \<and> length (get_cost d) \<le> length (r_cost r)
      \<and> (r_kids r = ''Yes'' \<longrightarrow> is_kid_friendly d)
      \<and> str_lower (get_climate d) = str_lower (r_climate r))"
proof -
  have a: "list_index (snd CRIME_INPUT) (str_title (get_crime d))
             = Inr (spec_crime_ordinal (str_title (get_crime d)))"
    using assms(2) by (simp add: valid_record_def crime_index)
  have b: "list_index (snd CRIME_INPUT) (r_crime r) = Inr (spec_crime_ordinal (r_crime r))"
    using assms(1) by (simp add: valid_answers_def crime_index)
  have c: "str_lower (get_climate d) = get_climate d"
    using assms(2) by (rule valid_record_climate)
  show ?thesis
    unfolding passes_filters_def a b c by auto
qed

text \<open>
  Kyoto passes all five tests under the sample answers; Oslo, too expensive and too
  cold, does not.
\<close>

theorem filter_iff_witness:
  "valid_answers demo_answers \<and> valid_record kyoto \<and> valid_record oslo
   \<and> passes_filters kyoto demo_answers = Inr True
   \<and> passes_filters oslo demo_answers = Inr False"
proof -
  have a: "valid_answers demo_answers" by code_simp
  have k: "valid_record kyoto" by code_simp
  have o: "valid_record oslo" by code_simp
  have "(str_title (get_continent kyoto) \<in> set (r_continent demo_answers)
      \<and> spec_crime_ordinal (str_title (get_crime kyoto)) \<le> spec_crime_ordinal (r_crime demo_answers)
      \<and> length (get_cost kyoto) \<le> length (r_cost demo_answers)
      \<and> (r_kids demo_answers = ''Yes'' \<longrightarrow> is_kid_friendly kyoto)
      \<and> str_lower (get_climate kyoto) = str_lower (r_climate demo_answers)) = True"
    by code_simp
  with filter_iff [OF a k] have yes: "passes_filters kyoto demo_answers = Inr True"
    by simp
  have "(str_title (get_continent oslo) \<in> set (r_continent demo_answers)
      \<and> spec_crime_ordinal (str_title (get_crime oslo)) \<le> spec_crime_ordinal (r_crime demo_answers)
      \<and> length (get_cost oslo) \<le> length (r_cost demo_answers)
      \<and> (r_kids demo_answers = ''Yes'' \<longrightarrow> is_kid_friendly oslo)
      \<and> str_lower (get_climate oslo) = str_lower (r_climate demo_answers)) = False"
    by code_simp
  with filter_iff [OF a o] have no: "passes_filters oslo demo_answers = Inr False"
    by simp
  from a k o yes no show ?thesis by simp
qed

text \<open>
  The hypothesis on the climate of the catalog entry is needed: a climate stored with a
  capital letter never equals the answer, which the code puts in lower case.
\<close>

lemma capital_climate_in_catalog_is_rejected:
  "passes_filters (kyoto\<lparr>get_climate := ''Warm''\<rparr>) demo_answers = Inr False"
  by code_simp

text \<open>
  Claim C3. For well-formed answers and catalog entries, the season maximum and the
  interest sum that the code computes are the season score and the interest score of the
  specification, the score of a destination is their product, and the comparison of the
  loop keeps the new destination exactly when its composite score is strictly greater in
  the ordinary order of signed numbers.
\<close>

theorem composite_score_refines:
  assumes "valid_answers r" and "valid_record m" and "valid_record d"
  shows "season_score d r = Inr (spec_season_score d r)
       \<and> interest_total d r = Inr (spec_interest_score d r)
       \<and> composite_score d r = Inr (spec_season_score d r * spec_interest_score d r)
       \<and> challenge r m d =
           Inr (if spec_composite_score m r < spec_composite_score d r then d else m)"
  using valid_season_score [OF assms(1,3)] valid_interest_total [OF assms(1,3)]
    valid_composite_score [OF assms(1,3)] valid_composite_score [OF assms(1,2)]
  by (simp add: challenge_composite spec_composite_score_def)

text \<open>
  Kyoto scores 5 times 23; it replaces Goa, whose composite score is negative.
\<close>

theorem composite_score_refines_witness:
  "valid_answers demo_answers \<and> valid_record goa \<and> valid_record kyoto
   \<and> season_score kyoto demo_answers = Inr 5
   \<and> interest_total kyoto demo_answers = Inr 23
   \<and> composite_score kyoto demo_answers = Inr 115
   \<and> challenge demo_answers goa kyoto = Inr kyoto"
proof -
  have a: "valid_answers demo_answers" by code_simp
  have g: "valid_record goa" by code_simp
  have k: "valid_record kyoto" by code_simp
  have s: "spec_season_score kyoto demo_answers = 5" by code_simp
  have i: "spec_interest_score kyoto demo_answers = 23" by code_simp
  have c: "spec_composite_score goa demo_answers = - 6" by code_simp
  have c': "spec_composite_score kyoto demo_answers = 115" by code_simp
  from composite_score_refines [OF a g k] show ?thesis
    unfolding s i c c' using a g k by simp
qed

text \<open>
  Claim C4. For well-formed answers and catalog, the selected destination stands at a
  position of the catalog such that every destination before it that passes the tests has
  a strictly smaller composite score, and every one after it has a smaller or equal
  score. Hence of two passing destinations with the same composite score the later one
  is never selected: the earlier one wins the tie, wherever the other entries stand.
\<close>

theorem first_seen_wins_ties:
  assumes "valid_answers r" and "\<forall>d\<in>set catalog. valid_record d"
    and "find_match catalog r = Inr (Some d)"
  shows "\<exists>ps qs. catalog = ps @ d # qs
       \<and> (\<forall>e\<in>set ps. passes_filters e r = Inr True \<longrightarrow>
            (\<exists>x y. composite_score d r = Inr x \<and> composite_score e r = Inr y \<and> y < x))
       \<and> (\<forall>e\<in>set qs. passes_filters e r = Inr True \<longrightarrow>
            (\<exists>x y. composite_score d r = Inr x \<and> composite_score e r = Inr y \<and> y \<le> x))"
proof -
  have sc: "\<forall>d\<in>set catalog. composite_score d r = Inr (spec_composite_score d r)"
    using assms(1,2) valid_composite_score by blast
  from find_match_shape [OF assms(1,2)] assms(3)
  obtain ps qs where split: "catalog = ps @ d # qs"
    and before: "\<forall>e\<in>set ps. passes_filters e r = Inr True
          \<longrightarrow> spec_composite_score e r < spec_composite_score d r"
    and after: "\<forall>e\<in>set qs. passes_filters e r = Inr True
          \<longrightarrow> spec_composite_score e r \<le> spec_composite_score d r"
    by auto
  have "\<forall>e\<in>set ps. passes_filters e r = Inr True \<longrightarrow>
            (\<exists>x y. composite_score d r = Inr x \<and> composite_score e r = Inr y \<and> y < x)"
    using sc split before by auto
  moreover have "\<forall>e\<in>set qs. passes_filters e r = Inr True \<longrightarrow>
            (\<exists>x y. composite_score d r = Inr x \<and> composite_score e r = Inr y \<and> y \<le> x)"
    using sc split after by auto
  ultimately show ?thesis using split by blast
qed

text \<open>
  Kyoto and Hanoi have the same score; Kyoto comes first and is selected.
\<close>

theorem first_seen_wins_ties_witness:
  "valid_answers demo_answers \<and> list_all valid_record demo_catalog
   \<and> find_match demo_catalog demo_answers = Inr (Some kyoto)
   \<and> composite_score hanoi demo_answers = composite_score kyoto demo_answers
   \<and> (\<exists>ps qs. demo_catalog = ps @ kyoto # qs
       \<and> (\<forall>e\<in>set ps. passes_filters e demo_answers = Inr True \<longrightarrow>
            (\<exists>x y. composite_score kyoto demo_answers = Inr x
                   \<and> composite_score e demo_answers = Inr y \<and> y < x))
       \<and> (\<forall>e\<in>set qs. passes_filters e demo_answers = Inr True \<longrightarrow>
            (\<exists>x y. composite_score kyoto demo_answers = Inr x
                   \<and> composite_score e demo_answers = Inr y \<and> y \<le> x)))"
proof -
  have a: "valid_answers demo_answers" by code_simp
  have c: "\<forall>d\<in>set demo_catalog. valid_record d" by code_simp
  have r: "find_match demo_catalog demo_answers = Inr (Some kyoto)" by code_simp
  have t: "composite_score hanoi demo_answers = composite_score kyoto demo_answers"
    by code_simp
  have v: "list_all valid_record demo_catalog"
    using c by (simp add: list_all_iff)
  from first_seen_wins_ties [OF a c r] a v r t show ?thesis by simp
qed

text \<open>
  Claim C5. A destination that passes the tests still passes them after any one of these
  changes to the answers: a crime level of higher or equal rank, a cost with at least as
  many cost symbols, one more continent, one more season, or the answer \<open>No\<close> instead
  of \<open>Yes\<close> to the children question.
\<close>

theorem relaxing_keeps_eligible:
  assumes "passes_filters d r = Inr True"
  shows "(list_index (snd CRIME_INPUT) (r_crime r) = Inr i
            \<and> list_index (snd CRIME_INPUT) c = Inr j \<and> i \<le> j
          \<longrightarrow> passes_filters d (r\<lparr>r_crime := c\<rparr>) = Inr True)
       \<and> (length (r_cost r) \<le> length t \<longrightarrow> passes_filters d (r\<lparr>r_cost := t\<rparr>) = Inr True)
       \<and> passes_filters d (r\<lparr>r_continent := r_continent r @ [k]\<rparr>) = Inr True
       \<and> passes_filters d (r\<lparr>r_season := r_season r @ [s]\<rparr>) = Inr True
       \<and> (r_kids r = ''Yes'' \<longrightarrow> passes_filters d (r\<lparr>r_kids := ''No''\<rparr>) = Inr True)"
  using assms
  by (auto simp: passes_filters_def split: if_splits sum.splits)

text \<open>
  Kyoto under the sample answers and under each of the five relaxed answers.
\<close>

theorem relaxing_keeps_eligible_witness:
  "passes_filters kyoto demo_answers = Inr True
   \<and> passes_filters kyoto (demo_answers\<lparr>r_crime := ''High''\<rparr>) = Inr True
   \<and> passes_filters kyoto (demo_answers\<lparr>r_cost := ''$$$''\<rparr>) = Inr True
   \<and> passes_filters kyoto
        (demo_answers\<lparr>r_continent := r_continent demo_answers @ [''Africa'']\<rparr>) = Inr True
   \<and> passes_filters kyoto
        (demo_answers\<lparr>r_season := r_season demo_answers @ [''Summer'']\<rparr>) = Inr True
   \<and> passes_filters kyoto (demo_answers\<lparr>r_kids := ''No''\<rparr>) = Inr True"
proof -
  have e: "passes_filters kyoto demo_answers = Inr True" by code_simp
  have i: "list_index (snd CRIME_INPUT) (r_crime demo_answers) = Inr 1" by code_simp
  have j: "list_index (snd CRIME_INPUT) ''High'' = Inr 2" by code_simp
  have t: "length (r_cost demo_answers) \<le> length ''$$$''" by code_simp
  have y: "r_kids demo_answers = ''Yes''" by code_simp
  from relaxing_keeps_eligible [OF e, of 1 "''High''" 2 "''$$$''" "''Africa''" "''Summer''"]
    e i j t y
  show ?thesis by simp
qed

text \<open>
  Claim C6. On the empty catalog, and on a catalog all of whose entries are skipped by
  the tests, the loop ends normally with \<open>match = None\<close>: the outcome is a value, not
  an exception.
\<close>

theorem no_match_is_a_result:
  fixes catalog :: "'n::linordered_idom destination list"
  shows "find_match ([] :: 'n destination list) r = Inr None
   \<and> ((\<forall>d\<in>set catalog. passes_filters d r = Inr False) \<longrightarrow> find_match catalog r = Inr None)"
  by (simp add: find_match_def match_loop_all_skipped)

text \<open>
  A catalog that holds Oslo only has no match under the sample answers.
\<close>

theorem no_match_is_a_result_witness:
  "passes_filters oslo demo_answers = Inr False
   \<and> find_match [oslo] demo_answers = Inr None
   \<and> find_match ([] :: int destination list) demo_answers = Inr None"
proof -
  have s: "\<forall>d\<in>set [oslo]. passes_filters d demo_answers = Inr False" by code_simp
  from no_match_is_a_result [of demo_answers "[oslo]"] s show ?thesis by simp
qed

text \<open>
  Claim C7. With no continent chosen, every destination is skipped by the first test and
  the result is \<open>None\<close>, whatever the catalog. With no season chosen, the season
  maximum is taken over no item and fails with \<open>ValueError\<close>, and so does the whole
  loop as soon as the catalog holds two destinations that pass the tests, since the second
  one calls for a comparison of scores.
\<close>

theorem empty_selections:
  "(r_continent r = [] \<longrightarrow>
      passes_filters d r = Inr False \<and> find_match catalog r = Inr None)
   \<and> (r_season r = [] \<longrightarrow> season_score e r = Inl ValueError)
   \<and> (r_season r = [] \<and> 2 \<le> length (filter (\<lambda>d. passes_filters d r = Inr True) catalog)
        \<longrightarrow> find_match catalog r = Inl ValueError)"
  by (simp add: find_match_def match_loop_all_skipped no_continent_skips no_season_from_None
      season_score_def)

text \<open>
  The sample catalog with the continents, respectively the seasons, of the sample
  answers removed.
\<close>

theorem empty_selections_witness:
  "passes_filters kyoto (demo_answers\<lparr>r_continent := []\<rparr>) = Inr False
   \<and> find_match demo_catalog (demo_answers\<lparr>r_continent := []\<rparr>) = Inr None
   \<and> season_score kyoto (demo_answers\<lparr>r_season := []\<rparr>) = Inl ValueError
   \<and> 2 \<le> length (filter (\<lambda>d. passes_filters d (demo_answers\<lparr>r_season := []\<rparr>) = Inr True)
                  demo_catalog)
   \<and> find_match demo_catalog (demo_answers\<lparr>r_season := []\<rparr>) = Inl ValueError"
proof -
  have n: "2 \<le> length (filter (\<lambda>d. passes_filters d (demo_answers\<lparr>r_season := []\<rparr>) = Inr True)
                  demo_catalog)"
    by code_simp
  from empty_selections [of "demo_answers\<lparr>r_continent := []\<rparr>" kyoto demo_catalog kyoto]
    empty_selections [of "demo_answers\<lparr>r_season := []\<rparr>" kyoto demo_catalog kyoto] n
  show ?thesis by simp
qed

text \<open>
  Claim C8 states that the user reads either the name of a destination or a message
  saying that no destination matched. It fails in the case of no match: with Oslo as the
  only entry, the sample answers match nothing, and the line printed is the text
  \<open>None\<close>, which is how \<open>print\<close> shows the value \<open>None\<close> of \<open>match\<close>.
\<close>

theorem printed_line_counterexample:
  "find_match [oslo] demo_answers = Inr None \<and> main_output [oslo] demo_answers = Inr ''None''"
  by code_simp

text \<open>
  Claim C8, as amended. For well-formed answers and catalog, \<open>main\<close> ends without an
  exception, and the last line it prints is the name of the selected destination, or the
  text \<open>None\<close> when no destination matched.
\<close>

theorem printed_line:
  assumes "valid_answers r" and "\<forall>d\<in>set catalog. valid_record d"
  shows "(\<exists>d\<in>set catalog. find_match catalog r = Inr (Some d)
            \<and> main_output catalog r = Inr (get_name d))
       \<or> (find_match catalog r = Inr None \<and> main_output catalog r = Inr ''None'')"
  using find_match_shape [OF assms]
  by (auto simp: main_output_def printed_result_def)

text \<open>
  The sample catalog prints Kyoto; with the preferred climate changed to Hot, it prints
  None.
\<close>

theorem printed_line_witness:
  "valid_answers demo_answers \<and> list_all valid_record demo_catalog
   \<and> main_output demo_catalog demo_answers = Inr ''Kyoto''
   \<and> valid_answers (demo_answers\<lparr>r_climate := ''Hot''\<rparr>)
   \<and> main_output demo_catalog (demo_answers\<lparr>r_climate := ''Hot''\<rparr>) = Inr ''None''"
proof -
  have a: "valid_answers demo_answers" by code_simp
  have a': "valid_answers (demo_answers\<lparr>r_climate := ''Hot''\<rparr>)" by code_simp
  have c: "\<forall>d\<in>set demo_catalog. valid_record d" by code_simp
  have r: "find_match demo_catalog demo_answers = Inr (Some kyoto)" by code_simp
  have r': "find_match demo_catalog (demo_answers\<lparr>r_climate := ''Hot''\<rparr>) = Inr None"
    by code_simp
  have n: "get_name kyoto = ''Kyoto''" by code_simp
  from printed_line [OF a c] r n have "main_output demo_catalog demo_answers = Inr ''Kyoto''"
    by auto
  moreover from printed_line [OF a' c] r'
  have "main_output demo_catalog (demo_answers\<lparr>r_climate := ''Hot''\<rparr>) = Inr ''None''"
    by auto
  moreover have "list_all valid_record demo_catalog"
    using c by (simp add: list_all_iff)
  ultimately show ?thesis using a a' by simp
qed

text \<open>
  Claim C9. After the loop has run over the first \<open>n\<close> entries of the catalog, the
  current match is either \<open>None\<close> or a destination among these entries that passes
  the five tests, and the final result is what the loop yields from this match on the
  remaining entries. With \<open>n\<close> the length of the catalog, a result other than
  \<open>None\<close> is an entry of the catalog that passes every test.
\<close>

theorem best_so_far_invariant:
  assumes "match_loop r None (take n catalog) = Inr best"
  shows "(best = None
          \<or> (\<exists>d. best = Some d \<and> d \<in> set (take n catalog) \<and> d \<in> set catalog
                \<and> passes_filters d r = Inr True))
       \<and> find_match catalog r = match_loop r best (drop n catalog)"
proof
  show "best = None \<or> (\<exists>d. best = Some d \<and> d \<in> set (take n catalog) \<and> d \<in> set catalog
                \<and> passes_filters d r = Inr True)"
  proof (cases best)
    case None
    then show ?thesis by simp
  next
    case (Some d)
    with assms match_loop_result [of r None "take n catalog" d]
    have "d \<in> set (take n catalog) \<and> passes_filters d r = Inr True" by simp
    then show ?thesis using Some by (auto dest: in_set_takeD)
  qed
next
  have "find_match catalog r = match_loop r None (take n catalog @ drop n catalog)"
    by (simp add: find_match_def)
  then show "find_match catalog r = match_loop r best (drop n catalog)"
    using assms by (simp only: match_loop_append sum.case)
qed

text \<open>
  After Oslo and Goa the current match is Goa.
\<close>

theorem best_so_far_invariant_witness:
  "match_loop demo_answers None (take 2 demo_catalog) = Inr (Some goa)
   \<and> goa \<in> set (take 2 demo_catalog) \<and> goa \<in> set demo_catalog
   \<and> passes_filters goa demo_answers = Inr True
   \<and> find_match demo_catalog demo_answers
       = match_loop demo_answers (Some goa) (drop 2 demo_catalog)"
proof -
  have p: "match_loop demo_answers None (take 2 demo_catalog) = Inr (Some goa)"
    by code_simp
  from best_so_far_invariant [OF p] p show ?thesis by simp
qed

text \<open>
  Claim C10. The result depends on the chosen continents and on the chosen seasons only
  through the sets of their entries: replacing the two lists by lists with the same
  entries, in particular by the lists without their repeated entries, leaves the result
  unchanged.
\<close>

theorem duplicates_do_not_matter:
  assumes "set cs = set (r_continent r)" and "set ss = set (r_season r)"
  shows "find_match catalog (r\<lparr>r_continent := cs, r_season := ss\<rparr>) = find_match catalog r"
proof -
  let ?r' = "r\<lparr>r_continent := cs, r_season := ss\<rparr>"
  have empty: "ss = [] \<longleftrightarrow> r_season r = []"
    using assms(2) by (metis set_empty)
  have a: "passes_filters d ?r' = passes_filters d r" for d :: "'a destination"
    by (simp add: passes_filters_def assms(1) cong: sum.case_cong if_cong)
  have b: "season_score d ?r' = season_score d r" for d :: "'a destination"
    by (auto simp: season_score_char spec_season_score_def assms(2) empty)
  have c: "interest_total d ?r' = interest_total d r" for d :: "'a destination"
    by (simp add: interest_total_def)
  show ?thesis
    unfolding find_match_def by (rule match_loop_cong [OF a b c])
qed

text \<open>
  The sample answers repeat Asia and Spring; without the repetitions the result is the
  same.
\<close>

theorem duplicates_do_not_matter_witness:
  "set [''Asia'', ''Europe''] = set (r_continent demo_answers)
   \<and> set [''Spring'', ''Winter''] = set (r_season demo_answers)
   \<and> r_continent demo_answers = [''Asia'', ''Asia'', ''Europe'']
   \<and> find_match demo_catalog
        (demo_answers\<lparr>r_continent := [''Asia'', ''Europe''], r_season := [''Spring'', ''Winter'']\<rparr>)
       = find_match demo_catalog demo_answers"
proof -
  have c: "set [''Asia'', ''Europe''] = set (r_continent demo_answers)" by code_simp
  have s: "set [''Spring'', ''Winter''] = set (r_season demo_answers)" by code_simp
  have d: "r_continent demo_answers = [''Asia'', ''Asia'', ''Europe'']" by code_simp
  from duplicates_do_not_matter [OF c s, of demo_catalog] c s d show ?thesis by simp
qed

end
